theory Spec2Isabelle
  imports Complex_Main "HOL-Library.AList" "HOL-Library.Sublist"
begin

section \<open>The file system the copy functions run on\<close>

text \<open>
  \<^verbatim>\<open>copy\<close>, \<^verbatim>\<open>copySync\<close> and \<^verbatim>\<open>collectFiles\<close> act on one shared file system
  through the calls of \<^verbatim>\<open>node:fs\<close>. The file system is a tree of regular files and
  directories; a path is the list of its segments below the root, so that
  \<^verbatim>\<open>path.join(dir, name)\<close> with a directory entry's name appends one segment. Source
  and destination are paths into the same tree, hence they may overlap.

  A directory lists its entries in the order \<^verbatim>\<open>readdir\<close> reports them. The
  modification time \<^verbatim>\<open>mtimeMs\<close> is a finite double, compared as the rational number
  it denotes. Symbolic links, special files and permissions are outside the model.
\<close>

type_synonym path = "string list"

definition join :: "path \<Rightarrow> string \<Rightarrow> path" where
  "join dir name = dir @ [name]"

datatype node =
    File (bytes: string) (mtime: rat)
  | Dir (mtime: rat) (children: "(string \<times> node) list")

text \<open>
  The state: the tree, and the wall clock as the sequence of times at which the
  successive writes happen (\<open>ticks\<close> counts the writes made so far).
\<close>

record fsys =
  tree :: node
  clock :: "nat \<Rightarrow> rat"
  ticks :: nat

definition now :: "fsys \<Rightarrow> rat" where
  "now s = clock s (ticks s)"

definition written :: "fsys \<Rightarrow> node \<Rightarrow> fsys" where
  "written s r = s\<lparr>tree := r, ticks := Suc (ticks s)\<rparr>"

datatype errno = ENOENT | ENOTDIR | EISDIR | EEXIST | EBUSY

text \<open>A rejected call of \<^verbatim>\<open>node:fs\<close>: its \<^verbatim>\<open>code\<close>, \<^verbatim>\<open>syscall\<close> and \<^verbatim>\<open>path\<close>.\<close>

datatype fs_error = SystemError (code: errno) (syscall: string) (epath: path)

fun resolve :: "node \<Rightarrow> path \<Rightarrow> errno + node" where
  "resolve n [] = Inr n"
| "resolve (File b t) (x # p) = Inl ENOTDIR"
| "resolve (Dir t es) (x # p) =
     (case map_of es x of None \<Rightarrow> Inl ENOENT | Some c \<Rightarrow> resolve c p)"

text \<open>\<open>alter p f\<close> replaces the node at \<open>p\<close>, when there is one, by its image under \<open>f\<close>.\<close>

fun alter :: "path \<Rightarrow> (node \<Rightarrow> node) \<Rightarrow> node \<Rightarrow> node" where
  "alter [] f n = f n"
| "alter (x # p) f (File b t) = File b t"
| "alter (x # p) f (Dir t es) = Dir t (AList.map_entry x (alter p f) es)"

text \<open>Adding or removing an entry of a directory sets the directory's modification time.\<close>

fun set_entries :: "rat \<Rightarrow> ((string \<times> node) list \<Rightarrow> (string \<times> node) list) \<Rightarrow> node \<Rightarrow> node" where
  "set_entries t g (File b t') = File b t'"
| "set_entries t g (Dir t' es) = Dir t (g es)"

definition remove_entry :: "fsys \<Rightarrow> path \<Rightarrow> fsys" where
  "remove_entry s p =
     written s (alter (butlast p) (set_entries (now s) (AList.delete (last p))) (tree s))"

definition add_entry :: "fsys \<Rightarrow> path \<Rightarrow> node \<Rightarrow> fsys" where
  "add_entry s p n =
     written s (alter (butlast p) (set_entries (now s) (\<lambda>es. es @ [(last p, n)])) (tree s))"

subsection \<open>The calls of \<^verbatim>\<open>node:fs\<close> the source makes\<close>

datatype Stats = Stats (isFile: bool) (isDirectory: bool) (mtimeMs: rat)

fun stats_of :: "node \<Rightarrow> Stats" where
  "stats_of (File b t) = Stats True False t"
| "stats_of (Dir t es) = Stats False True t"

definition stat :: "fsys \<Rightarrow> path \<Rightarrow> fs_error + Stats" where
  "stat s p =
     (case resolve (tree s) p of
        Inl c \<Rightarrow> Inl (SystemError c ''stat'' p)
      | Inr n \<Rightarrow> Inr (stats_of n))"

text \<open>
  \<^verbatim>\<open>fs.rm(p, { recursive: true })\<close> (no \<^verbatim>\<open>force\<close>): removes the file or the whole
  directory at \<open>p\<close>; a missing path is an error, and the root itself is busy.
\<close>

definition rm_recursive :: "fsys \<Rightarrow> path \<Rightarrow> fs_error + fsys" where
  "rm_recursive s p =
     (case resolve (tree s) p of
        Inl c \<Rightarrow> Inl (SystemError c ''rm'' p)
      | Inr n \<Rightarrow> if p = [] then Inl (SystemError EBUSY ''rm'' p) else Inr (remove_entry s p))"

definition unlink :: "fsys \<Rightarrow> path \<Rightarrow> fs_error + fsys" where
  "unlink s p =
     (case resolve (tree s) p of
        Inl c \<Rightarrow> Inl (SystemError c ''unlink'' p)
      | Inr (Dir t es) \<Rightarrow> Inl (SystemError EISDIR ''unlink'' p)
      | Inr (File b t) \<Rightarrow> Inr (remove_entry s p))"

text \<open>
  \<^verbatim>\<open>fs.copyFile(src, dest)\<close>: \<open>dest\<close> is created, or overwritten when it is a file,
  with the bytes of the file \<open>src\<close>; the copy's modification time is the time of the
  write. Copying a file onto itself changes nothing.
\<close>

definition copyFile :: "fsys \<Rightarrow> path \<Rightarrow> path \<Rightarrow> fs_error + fsys" where
  "copyFile s src dest =
     (case resolve (tree s) src of
        Inl c \<Rightarrow> Inl (SystemError c ''copyfile'' src)
      | Inr (Dir t es) \<Rightarrow> Inl (SystemError EISDIR ''copyfile'' src)
      | Inr (File b t) \<Rightarrow>
          if src = dest then Inr s
          else
            (case resolve (tree s) dest of
               Inr (File b' t') \<Rightarrow> Inr (written s (alter dest (\<lambda>n. File b (now s)) (tree s)))
             | Inr (Dir t' es') \<Rightarrow> Inl (SystemError EISDIR ''copyfile'' dest)
             | Inl c \<Rightarrow>
                 (case resolve (tree s) (butlast dest) of
                    Inr (Dir t' es') \<Rightarrow> Inr (add_entry s dest (File b (now s)))
                  | Inr (File b' t') \<Rightarrow> Inl (SystemError c ''copyfile'' dest)
                  | Inl c' \<Rightarrow> Inl (SystemError c ''copyfile'' dest))))"

text \<open>
  \<^verbatim>\<open>fs.mkdir(p, { recursive: true })\<close>: an existing directory is left as it is, the
  missing segments are created, and a file in the way is an error.
\<close>

fun fresh_dirs :: "rat \<Rightarrow> path \<Rightarrow> node" where
  "fresh_dirs t [] = Dir t []"
| "fresh_dirs t (x # p) = Dir t [(x, fresh_dirs t p)]"

fun mkdirp :: "rat \<Rightarrow> path \<Rightarrow> node \<Rightarrow> errno + node" where
  "mkdirp t [] (Dir t' es) = Inr (Dir t' es)"
| "mkdirp t [] (File b t') = Inl EEXIST"
| "mkdirp t (x # p) (File b t') = Inl ENOTDIR"
| "mkdirp t (x # p) (Dir t' es) =
     (case map_of es x of
        None \<Rightarrow> Inr (Dir t (es @ [(x, fresh_dirs t p)]))
      | Some c \<Rightarrow>
          (case mkdirp t p c of
             Inl e \<Rightarrow> Inl e
           | Inr c' \<Rightarrow> Inr (Dir t' (AList.update x c' es))))"

definition mkdir_recursive :: "fsys \<Rightarrow> path \<Rightarrow> fs_error + fsys" where
  "mkdir_recursive s p =
     (case mkdirp (now s) p (tree s) of
        Inl c \<Rightarrow> Inl (SystemError c ''mkdir'' p)
      | Inr r \<Rightarrow> if r = tree s then Inr s else Inr (written s r))"

definition readdir :: "fsys \<Rightarrow> path \<Rightarrow> fs_error + string list" where
  "readdir s p =
     (case resolve (tree s) p of
        Inl c \<Rightarrow> Inl (SystemError c ''scandir'' p)
      | Inr (File b t) \<Rightarrow> Inl (SystemError ENOTDIR ''scandir'' p)
      | Inr (Dir t es) \<Rightarrow> Inr (map fst es))"

section \<open>\<^verbatim>\<open>copy\<close> and \<^verbatim>\<open>copySync\<close>\<close>

text \<open>
  \<^verbatim>\<open>overwrite?: 'always' | 'never' | 'newer' | true | false\<close>, in an options object
  that may itself be missing.
\<close>

datatype overwrite_option = Always | Never | Newer | BoolTrue | BoolFalse

record CopyOptions =
  overwrite :: "overwrite_option option"

text \<open>\<^verbatim>\<open>options?.overwrite\<close>\<close>

definition options_overwrite :: "CopyOptions option \<Rightarrow> overwrite_option option" where
  "options_overwrite options = (case options of None \<Rightarrow> None | Some opts \<Rightarrow> overwrite opts)"

text \<open>
  The local \<^verbatim>\<open>overwrite\<close> of both functions. With no destination,
  \<^verbatim>\<open>destStat?.mtimeMs\<close> is \<^verbatim>\<open>undefined\<close> and the comparison is false.
\<close>

definition overwrite_flag :: "CopyOptions option \<Rightarrow> Stats \<Rightarrow> Stats option \<Rightarrow> bool" where
  "overwrite_flag options srcStat destStat =
     (let overwrite =
            (options_overwrite options = Some Always \<or> options_overwrite options = Some BoolTrue)
      in if options_overwrite options = Some Newer
         then (if (case destStat of None \<Rightarrow> False | Some d \<Rightarrow> mtimeMs srcStat > mtimeMs d)
               then True else overwrite)
         else overwrite)"

text \<open>
  How a call ends: the promise resolves (the synchronous function returns), or it
  rejects (throws) with the error of the failed call. Either way the file system is
  left in the state reached so far.
\<close>

datatype completion = Done | Threw fs_error

type_synonym outcome = "(completion \<times> fsys) option"

text \<open>One awaited call of \<^verbatim>\<open>node:fs\<close> that changes the state, then the rest.\<close>

definition and_then :: "fs_error + fsys \<Rightarrow> fsys \<Rightarrow> (fsys \<Rightarrow> outcome) \<Rightarrow> outcome" where
  "and_then r s k = (case r of Inl e \<Rightarrow> Some (Threw e, s) | Inr s' \<Rightarrow> k s')"

text \<open>\<^verbatim>\<open>for (const file of files) await body(file)\<close>: the first rejection ends the loop.\<close>

fun for_each :: "(string \<Rightarrow> fsys \<Rightarrow> outcome) \<Rightarrow> string list \<Rightarrow> fsys \<Rightarrow> outcome" where
  "for_each body [] s = Some (Done, s)"
| "for_each body (file # files) s =
     (case body file s of
        None \<Rightarrow> None
      | Some (Threw e, s') \<Rightarrow> Some (Threw e, s')
      | Some (Done, s') \<Rightarrow> for_each body files s')"

text \<open>
  The recursion of \<^verbatim>\<open>copy\<close> follows the directories it meets, and a destination
  inside the source makes it meet ever new ones (\<^verbatim>\<open>copy('a', 'a/b')\<close> creates
  \<^verbatim>\<open>a/b\<close>, lists it among the entries of \<^verbatim>\<open>a\<close> and descends into it, and so on).
  The first argument bounds the depth of the calls; \<open>None\<close> is a run that needs more.
  The recursive call passes no options.
\<close>

primrec copy :: "nat \<Rightarrow> path \<Rightarrow> path \<Rightarrow> CopyOptions option \<Rightarrow> fsys \<Rightarrow> outcome" where
  "copy 0 src dest options s = None"
| "copy (Suc fuel) src dest options s =
     (case stat s src of
        Inl e \<Rightarrow> Some (Threw e, s)
      | Inr srcStat \<Rightarrow>
          (let destStat = (case stat s dest of Inl e \<Rightarrow> None | Inr st \<Rightarrow> Some st);
               overwrite = overwrite_flag options srcStat destStat
           in if isFile srcStat then
                (case destStat of
                   Some d \<Rightarrow>
                     if overwrite then
                       (if isDirectory d
                        then and_then (rm_recursive s dest) s
                               (\<lambda>s1. and_then (copyFile s1 src dest) s1 (\<lambda>s2. Some (Done, s2)))
                        else and_then (copyFile s src dest) s (\<lambda>s2. Some (Done, s2)))
                     else Some (Done, s)
                 | None \<Rightarrow> and_then (copyFile s src dest) s (\<lambda>s2. Some (Done, s2)))
              else if isDirectory srcStat then
                (let mkdir_and_children = (\<lambda>s1.
                       and_then (mkdir_recursive s1 dest) s1 (\<lambda>s2.
                         case readdir s2 src of
                           Inl e \<Rightarrow> Some (Threw e, s2)
                         | Inr files \<Rightarrow>
                             for_each (\<lambda>file. copy fuel (join src file) (join dest file) None)
                               files s2))
                 in case destStat of
                      Some d \<Rightarrow>
                        if isFile d then
                          (if overwrite then and_then (unlink s dest) s mkdir_and_children
                           else Some (Done, s))
                        else mkdir_and_children s
                    | None \<Rightarrow> mkdir_and_children s)
              else Some (Done, s)))"

text \<open>
  \<^verbatim>\<open>copySync\<close> differs in one call: \<^verbatim>\<open>fs.statSync(dest, { throwIfNoEntry: false })\<close>
  gives \<^verbatim>\<open>undefined\<close> when there is no entry and throws any other error, where
  \<^verbatim>\<open>copy\<close> turns every rejection of \<^verbatim>\<open>stat(dest)\<close> into \<^verbatim>\<open>null\<close>.
\<close>

primrec copySync :: "nat \<Rightarrow> path \<Rightarrow> path \<Rightarrow> CopyOptions option \<Rightarrow> fsys \<Rightarrow> outcome" where
  "copySync 0 src dest options s = None"
| "copySync (Suc fuel) src dest options s =
     (case stat s src of
        Inl e \<Rightarrow> Some (Threw e, s)
      | Inr srcStat \<Rightarrow>
          (case (case stat s dest of
                   Inl e \<Rightarrow> if code e = ENOENT then Inr None else Inl e
                 | Inr st \<Rightarrow> Inr (Some st)) of
             Inl e \<Rightarrow> Some (Threw e, s)
           | Inr destStat \<Rightarrow>
               (let overwrite = overwrite_flag options srcStat destStat
                in if isFile srcStat then
                     (case destStat of
                        Some d \<Rightarrow>
                          if overwrite then
                            (if isDirectory d
                             then and_then (rm_recursive s dest) s
                                    (\<lambda>s1. and_then (copyFile s1 src dest) s1 (\<lambda>s2. Some (Done, s2)))
                             else and_then (copyFile s src dest) s (\<lambda>s2. Some (Done, s2)))
                          else Some (Done, s)
                      | None \<Rightarrow> and_then (copyFile s src dest) s (\<lambda>s2. Some (Done, s2)))
                   else if isDirectory srcStat then
                     (let mkdir_and_children = (\<lambda>s1.
                            and_then (mkdir_recursive s1 dest) s1 (\<lambda>s2.
                              case readdir s2 src of
                                Inl e \<Rightarrow> Some (Threw e, s2)
                              | Inr files \<Rightarrow>
                                  for_each (\<lambda>file. copySync fuel (join src file) (join dest file) None)
                                    files s2))
                      in case destStat of
                           Some d \<Rightarrow>
                             if isFile d then
                               (if overwrite then and_then (unlink s dest) s mkdir_and_children
                                else Some (Done, s))
                             else mkdir_and_children s
                         | None \<Rightarrow> mkdir_and_children s)
                   else Some (Done, s))))"

text \<open>
  What a caller can tell of a run: whether the call succeeded, and the file system it
  left. The error values of the two functions can differ (the failed call is
  \<^verbatim>\<open>stat\<close> in one and \<^verbatim>\<open>copyfile\<close> or \<^verbatim>\<open>mkdir\<close> in the other).
\<close>

definition observed :: "outcome \<Rightarrow> (bool \<times> fsys) option" where
  "observed r = map_option (\<lambda>(c, s). (c = Done, s)) r"

section \<open>\<^verbatim>\<open>collectFiles\<close>\<close>

text \<open>
  \<^verbatim>\<open>fs.readdir(dir, { withFileTypes: true })\<close> gives one \<^verbatim>\<open>Dirent\<close> for each entry,
  with its name and whether it is a directory.
\<close>

datatype Dirent = Dirent (name: string) (entryIsDirectory: bool)

fun dirent_of :: "string \<times> node \<Rightarrow> Dirent" where
  "dirent_of (k, File b t) = Dirent k False"
| "dirent_of (k, Dir t es) = Dirent k True"

definition readdir_withFileTypes :: "fsys \<Rightarrow> path \<Rightarrow> fs_error + Dirent list" where
  "readdir_withFileTypes s p =
     (case resolve (tree s) p of
        Inl c \<Rightarrow> Inl (SystemError c ''scandir'' p)
      | Inr (File b t) \<Rightarrow> Inl (SystemError ENOTDIR ''scandir'' p)
      | Inr (Dir t es) \<Rightarrow> Inr (map dirent_of es))"

text \<open>\<^verbatim>\<open>type FileFilter = (entryPath: string) => boolean\<close>\<close>

type_synonym FileFilter = "path \<Rightarrow> bool"

text \<open>
  \<^verbatim>\<open>for (const entry of dirEntries)\<close> over the array \<^verbatim>\<open>entries\<close> that the closure
  \<^verbatim>\<open>collect\<close> fills; a rejected \<^verbatim>\<open>readdir\<close> ends the whole call.
\<close>

fun for_entries :: "(Dirent \<Rightarrow> path list \<Rightarrow> fs_error + path list) \<Rightarrow> Dirent list \<Rightarrow> path list
    \<Rightarrow> fs_error + path list" where
  "for_entries body [] entries = Inr entries"
| "for_entries body (entry # dirEntries) entries =
     (case body entry entries of
        Inl e \<Rightarrow> Inl e
      | Inr entries' \<Rightarrow> for_entries body dirEntries entries')"

lemma for_entries_cong [fundef_cong]:
  assumes "xs = ys" "a = b" "\<And>x acc. x \<in> set ys \<Longrightarrow> f x acc = g x acc"
  shows "for_entries f xs a = for_entries g ys b"
  unfolding assms(1,2) using assms(3)
  by (induction ys arbitrary: b) (auto split: sum.splits)

text \<open>
  \<^verbatim>\<open>collect\<close> only reads the file system, and each recursive call is for a directory
  one level further down the tree: the size of the subtree at \<open>dir\<close> decreases.
\<close>

lemma resolve_append:
  "resolve n (p @ q) = (case resolve n p of Inl e \<Rightarrow> Inl e | Inr m \<Rightarrow> resolve m q)"
proof (induction p arbitrary: n)
  case Nil
  then show ?case by simp
next
  case (Cons x p)
  then show ?case
    by (cases n) (auto split: option.splits)
qed

definition weight :: "fsys \<Rightarrow> path \<Rightarrow> nat" where
  "weight s p = (case resolve (tree s) p of Inl c \<Rightarrow> 0 | Inr n \<Rightarrow> size n)"

lemma size_entry: "(k, c) \<in> set es \<Longrightarrow> size c < size (Dir t es)"
  by (induction es) auto

lemma weight_entry:
  assumes "readdir_withFileTypes s dir = Inr dirEntries" "entry \<in> set dirEntries"
  shows "weight s (join dir (name entry)) < weight s dir"
proof -
  from assms(1) obtain t es where d: "resolve (tree s) dir = Inr (Dir t es)"
    and ds: "dirEntries = map dirent_of es"
    by (auto simp: readdir_withFileTypes_def split: sum.splits node.splits)
  from assms(2) ds obtain k n where kn: "(k, n) \<in> set es" "entry = dirent_of (k, n)"
    by auto
  then have k: "name entry = k" by (cases n) auto
  from kn(1) obtain c where c: "map_of es k = Some c"
    by (metis weak_map_of_SomeI)
  then have "(k, c) \<in> set es" by (rule map_of_SomeD)
  then have "size c < size (Dir t es)" by (rule size_entry)
  then show ?thesis
    using d c k by (simp add: weight_def join_def resolve_append)
qed

function collect :: "fsys \<Rightarrow> FileFilter option \<Rightarrow> path \<Rightarrow> path list \<Rightarrow> fs_error + path list" where
  "collect s flt dir entries =
     (case readdir_withFileTypes s dir of
        Inl e \<Rightarrow> Inl e
      | Inr dirEntries \<Rightarrow>
          for_entries (\<lambda>entry entries.
              let entryPath = join dir (name entry)
              in if entryIsDirectory entry then collect s flt entryPath entries
                 else if (case flt of None \<Rightarrow> True | Some f \<Rightarrow> f entryPath)
                 then Inr (entries @ [entryPath])
                 else Inr entries)
            dirEntries entries)"
  by pat_completeness auto
termination
  by (relation "measure (\<lambda>(s, flt, dir, entries). weight s dir)") (auto simp: weight_entry)

text \<open>\<^verbatim>\<open>collectFiles(dir, filter?)\<close>: the inner \<^verbatim>\<open>collect(dir)\<close> starting from no entries.\<close>

definition collectFiles :: "fsys \<Rightarrow> path \<Rightarrow> FileFilter option \<Rightarrow> fs_error + path list" where
  "collectFiles s dir flt = collect s flt dir []"

declare collect.simps [simp del]

text \<open>
  To state what \<^verbatim>\<open>collectFiles\<close> returns: the number of files in a tree, the files of
  a tree in depth-first order of the directory listings, and the trees in which no
  directory has two entries of one name (every tree of a real file system).
\<close>

definition accepts :: "FileFilter option \<Rightarrow> path \<Rightarrow> bool" where
  "accepts flt p = (case flt of None \<Rightarrow> True | Some f \<Rightarrow> f p)"

fun listing :: "path \<Rightarrow> node \<Rightarrow> path list"
  and listing_entries :: "path \<Rightarrow> (string \<times> node) list \<Rightarrow> path list" where
  "listing p (File b t) = [p]"
| "listing p (Dir t es) = listing_entries p es"
| "listing_entries p [] = []"
| "listing_entries p ((k, n) # es) = listing (p @ [k]) n @ listing_entries p es"

fun count_files :: "node \<Rightarrow> nat"
  and count_files_in :: "(string \<times> node) list \<Rightarrow> nat" where
  "count_files (File b t) = 1"
| "count_files (Dir t es) = count_files_in es"
| "count_files_in [] = 0"
| "count_files_in ((k, n) # es) = count_files n + count_files_in es"

fun well_formed :: "node \<Rightarrow> bool"
  and well_formed_entries :: "(string \<times> node) list \<Rightarrow> bool" where
  "well_formed (File b t) = True"
| "well_formed (Dir t es) = (distinct (map fst es) \<and> well_formed_entries es)"
| "well_formed_entries [] = True"
| "well_formed_entries ((k, n) # es) = (well_formed n \<and> well_formed_entries es)"

section \<open>The stream helpers\<close>

text \<open>
  \<^verbatim>\<open>type ReadableChunk = string | Buffer | Uint8Array | null\<close>. A string stands for its
  UTF-8 bytes.
\<close>

datatype ReadableChunk = Str string | Buffer string | Uint8Array string | Null

text \<open>\<^verbatim>\<open>typeof chunk === 'object'\<close> (true of \<^verbatim>\<open>null\<close> as well).\<close>

fun typeof_object :: "ReadableChunk \<Rightarrow> bool" where
  "typeof_object (Str x) = False"
| "typeof_object (Buffer b) = True"
| "typeof_object (Uint8Array b) = True"
| "typeof_object Null = True"

fun bytes_of :: "ReadableChunk \<Rightarrow> string" where
  "bytes_of (Str x) = x"
| "bytes_of (Buffer b) = b"
| "bytes_of (Uint8Array b) = b"
| "bytes_of Null = []"

subsection \<open>\<^verbatim>\<open>stream.Readable\<close>\<close>

text \<open>
  The part of a \<^verbatim>\<open>stream.Readable\<close> the helpers depend on: its mode, its internal
  buffer, whether end-of-stream has been pushed (\<^verbatim>\<open>state.ended\<close>), and the error it
  was destroyed with, if any. \<open>read_pushes\<close> is the \<^verbatim>\<open>read()\<close> implementation given to
  the constructor: \<open>Some input\<close> is the one of \<^verbatim>\<open>arrayToStream\<close>, which pushes every
  element of \<open>input\<close> and then \<^verbatim>\<open>null\<close>; \<open>None\<close> is a stream fed by writes (a
  \<^verbatim>\<open>PassThrough\<close>).
\<close>

datatype stream_error = ERR_STREAM_PUSH_AFTER_EOF

record Readable =
  objectMode :: bool
  buffer :: "ReadableChunk list"
  eof :: bool
  errored :: "stream_error option"
  read_pushes :: "ReadableChunk list option"

definition new_Readable :: "bool \<Rightarrow> ReadableChunk list option \<Rightarrow> Readable" where
  "new_Readable om impl =
     \<lparr>objectMode = om, buffer = [], eof = False, errored = None, read_pushes = impl\<rparr>"

text \<open>
  \<^verbatim>\<open>readable.push(chunk)\<close>. \<^verbatim>\<open>null\<close> signals end-of-stream. In byte mode a string or a
  \<^verbatim>\<open>Uint8Array\<close> is stored as a \<^verbatim>\<open>Buffer\<close> and an empty chunk is dropped. A chunk
  pushed after end-of-stream is not stored: the stream is destroyed with
  \<^verbatim>\<open>ERR_STREAM_PUSH_AFTER_EOF\<close>. The return value is not modelled: the source ignores it.
\<close>

definition push :: "ReadableChunk \<Rightarrow> Readable \<Rightarrow> Readable" where
  "push chunk st =
     (if chunk = Null then st\<lparr>eof := True\<rparr>
      else if objectMode st \<or> bytes_of chunk \<noteq> [] then
        (if eof st then
           st\<lparr>errored := (case errored st of
                              None \<Rightarrow> Some ERR_STREAM_PUSH_AFTER_EOF
                            | Some err \<Rightarrow> Some err)\<rparr>
         else if errored st \<noteq> None then st
         else st\<lparr>buffer := buffer st
                    @ [if objectMode st then chunk else Buffer (bytes_of chunk)]\<rparr>)
      else st)"

text \<open>The call of the \<^verbatim>\<open>read()\<close> implementation.\<close>

definition run_read :: "Readable \<Rightarrow> Readable" where
  "run_read st =
     (case read_pushes st of
        None \<Rightarrow> st
      | Some input \<Rightarrow> push Null (foldl (\<lambda>this element. push element this) st input))"

text \<open>
  \<^verbatim>\<open>readable.read()\<close> of a consumer: the implementation is asked for data unless the
  stream has ended or is destroyed; then one object is taken from the buffer in object
  mode, and all buffered bytes, as one \<^verbatim>\<open>Buffer\<close>, in byte mode.
\<close>

definition read :: "Readable \<Rightarrow> ReadableChunk option \<times> Readable" where
  "read st =
     (let st1 = (if eof st \<or> errored st \<noteq> None then st else run_read st)
      in case buffer st1 of
           [] \<Rightarrow> (None, st1)
         | chunk # rest \<Rightarrow>
             if objectMode st1 then (Some chunk, st1\<lparr>buffer := rest\<rparr>)
             else (Some (Buffer (concat (map bytes_of (buffer st1)))), st1\<lparr>buffer := []\<rparr>))"

text \<open>
  A promise resolves, is rejected, or stays pending for ever (a consumer waiting for
  data that never comes).
\<close>

datatype 'a promise = Resolved 'a | Rejected stream_error | Pending

text \<open>
  \<^verbatim>\<open>for await (const chunk of stream) acc = body(acc, chunk)\<close>: the async iterator of a
  readable stream reads until the stream is destroyed (the loop throws the error) or
  has ended (the loop is left). Every round takes a chunk out of the buffer, and
  \<^verbatim>\<open>read()\<close> runs at most once before end-of-stream, so the loop terminates.
\<close>

definition iterations :: "Readable \<Rightarrow> nat" where
  "iterations st =
     (if eof st \<or> errored st \<noteq> None \<or> read_pushes st = None then 0
      else Suc (length (the (read_pushes st)))) + length (buffer st)"

lemma eof_push_Null: "eof (push Null st)"
  by (simp add: push_def)

lemma length_buffer_push: "length (buffer (push c st)) \<le> Suc (length (buffer st))"
  by (simp add: push_def)

lemma length_buffer_pushes:
  "length (buffer (foldl (\<lambda>this element. push element this) st xs)) \<le> length xs + length (buffer st)"
proof (induction xs arbitrary: st)
  case Nil
  show ?case by simp
next
  case (Cons x xs)
  show ?case
    using Cons.IH [of "push x st"] length_buffer_push [of x st] by simp
qed

lemma buffer_push_Null: "buffer (push Null st) = buffer st"
  by (simp add: push_def)

lemma iterations_read:
  assumes "read st = (Some chunk, st')"
  shows "iterations st' < iterations st"
proof (cases "eof st \<or> errored st \<noteq> None")
  case True
  with assms show ?thesis
    by (auto simp: read_def iterations_def split: list.splits if_splits)
next
  case False
  show ?thesis
  proof (cases "read_pushes st")
    case None
    with False assms show ?thesis
      by (auto simp: read_def run_read_def iterations_def split: list.splits if_splits)
  next
    case (Some input)
    let ?st1 = "run_read st"
    have e: "eof ?st1" by (simp add: run_read_def Some eof_push_Null)
    have l: "length (buffer ?st1) \<le> length input + length (buffer st)"
      using length_buffer_pushes [of st input] by (simp add: run_read_def Some buffer_push_Null)
    have "iterations st' < Suc (length (buffer ?st1))"
      using assms False e
      by (auto simp: read_def iterations_def Let_def split: list.splits if_splits)
    moreover have "iterations st = Suc (length input) + length (buffer st)"
      using False Some by (simp add: iterations_def)
    ultimately show ?thesis using l by simp
  qed
qed

function for_await :: "Readable \<Rightarrow> ('a \<Rightarrow> ReadableChunk \<Rightarrow> 'a) \<Rightarrow> 'a \<Rightarrow> 'a promise" where
  "for_await st body acc =
     (case errored st of
        Some err \<Rightarrow> Rejected err
      | None \<Rightarrow>
          (case read st of
             (Some chunk, st') \<Rightarrow> for_await st' body (body acc chunk)
           | (None, st') \<Rightarrow>
               (case errored st' of
                  Some err \<Rightarrow> Rejected err
                | None \<Rightarrow> if eof st' then Resolved acc else Pending)))"
  by pat_completeness auto
termination
  by (relation "measure (\<lambda>(st, body, acc). iterations st)") (auto intro: iterations_read [OF sym])

declare for_await.simps [simp del]

subsection \<open>\<^verbatim>\<open>arrayToStream\<close>, \<^verbatim>\<open>streamToArray\<close> and \<^verbatim>\<open>mergeStreams\<close>\<close>

text \<open>
  \<^verbatim>\<open>arrayToStream\<close> is the same in both source files. With no \<^verbatim>\<open>objectMode\<close> argument
  the mode is guessed from \<^verbatim>\<open>input[0]\<close> (\<^verbatim>\<open>undefined\<close> for the empty array).
\<close>

definition arrayToStream :: "ReadableChunk list \<Rightarrow> bool option \<Rightarrow> Readable" where
  "arrayToStream input objectMode_arg =
     new_Readable
       (case objectMode_arg of
          Some b \<Rightarrow> b
        | None \<Rightarrow> (case input of [] \<Rightarrow> False | first # rest \<Rightarrow> typeof_object first \<and> first \<noteq> Null))
       (Some input)"

definition streamToArray :: "Readable \<Rightarrow> ReadableChunk list promise" where
  "streamToArray input = for_await input (\<lambda>output chunk. output @ [chunk]) []"

text \<open>
  \<^verbatim>\<open>new stream.PassThrough({ objectMode: true })\<close>: what is written to it is pushed to
  its readable side, and \<^verbatim>\<open>end()\<close> pushes end-of-stream. The writes that wait on the
  writable side while the readable side is full are not kept apart: a consumer gets
  the chunks in the order they were written, and then the end.
\<close>

definition new_PassThrough :: Readable where
  "new_PassThrough = new_Readable True None"

definition stream_write :: "ReadableChunk \<Rightarrow> Readable \<Rightarrow> Readable" where
  "stream_write chunk merged = push chunk merged"

definition end_stream :: "Readable \<Rightarrow> Readable" where
  "end_stream merged = push Null merged"

text \<open>
  \<^verbatim>\<open>mergeStreams\<close> of \<^verbatim>\<open>src/unnamed/part_000\<close>: every stream is drained in turn into
  \<^verbatim>\<open>merged\<close>, which is ended when the counter \<^verbatim>\<open>ended\<close> reaches \<^verbatim>\<open>streams.length\<close>.
\<close>

fun merge_each :: "Readable list \<Rightarrow> nat \<Rightarrow> nat \<Rightarrow> Readable \<Rightarrow> Readable promise" where
  "merge_each [] count ended merged = Resolved merged"
| "merge_each (stream # streams) count ended merged =
     (case for_await stream (\<lambda>merged data. stream_write data merged) merged of
        Rejected err \<Rightarrow> Rejected err
      | Pending \<Rightarrow> Pending
      | Resolved merged1 \<Rightarrow>
          (let ended = ended + 1
           in merge_each streams count ended
                (if ended = count then end_stream merged1 else merged1)))"

definition mergeStreams :: "Readable list \<Rightarrow> Readable promise" where
  "mergeStreams streams = merge_each streams (length streams) 0 new_PassThrough"

text \<open>
  \<^verbatim>\<open>mergeStreams\<close> of \<^verbatim>\<open>src/index.ts\<close>: every stream is piped into \<^verbatim>\<open>output\<close> with
  \<^verbatim>\<open>{ end: false }\<close>, and \<^verbatim>\<open>output\<close> is returned at once. \<open>pipe\<close> gives what
  \<^verbatim>\<open>output\<close> holds once the piped stream has delivered its chunks; with
  \<^verbatim>\<open>end: false\<close> the end of the source is not passed on. The sources are taken in the
  order of the arguments; the order in which several piped sources really deliver is
  not fixed by the code, and nothing below depends on it.
\<close>

definition pipe :: "Readable \<Rightarrow> Readable \<Rightarrow> Readable" where
  "pipe stream output =
     foldl (\<lambda>output chunk. stream_write chunk output) output
       (buffer (if eof stream \<or> errored stream \<noteq> None then stream else run_read stream))"

definition index_mergeStreams :: "Readable list \<Rightarrow> Readable promise" where
  "index_mergeStreams streams = Resolved (foldl (\<lambda>output stream. pipe stream output) new_PassThrough streams)"

text \<open>Which chunks \<open>push\<close> stores in a given mode, and as what.\<close>

definition kept :: "bool \<Rightarrow> ReadableChunk \<Rightarrow> bool" where
  "kept om chunk = (om \<or> bytes_of chunk \<noteq> [])"

definition stored :: "bool \<Rightarrow> ReadableChunk \<Rightarrow> ReadableChunk" where
  "stored om chunk = (if om then chunk else Buffer (bytes_of chunk))"

section \<open>Example file systems\<close>

definition nested_fs :: fsys where
  "nested_fs =
     \<lparr>tree = Dir 0 [(''src'', Dir 1 [(''a.txt'', File ''new'' 3)]),
                     (''dest'', Dir 2 [(''a.txt'', File ''old'' 1)])],
      clock = (\<lambda>k. 10 + of_nat k), ticks = 0\<rparr>"

definition inside_fs :: fsys where
  "inside_fs =
     \<lparr>tree = Dir 0 [(''d'', Dir 1 [(''f'', File ''x'' 2)])],
      clock = (\<lambda>k. 10 + of_nat k), ticks = 0\<rparr>"

definition flat_fs :: fsys where
  "flat_fs =
     \<lparr>tree = Dir 0 [(''f'', File ''x'' 2), (''d'', Dir 1 [(''g'', File ''y'' 1)]),
                     (''h'', File ''old'' 1)],
      clock = (\<lambda>k. 10 + of_nat k), ticks = 0\<rparr>"

section \<open>Paths into a changed tree\<close>

lemmas fs_calls = stat_def overwrite_flag_def options_overwrite_def and_then_def
  mkdir_recursive_def readdir_def join_def rm_recursive_def copyFile_def unlink_def
  remove_entry_def add_entry_def written_def now_def

lemma resolve_error: "resolve n p = Inl c \<Longrightarrow> c = ENOENT \<or> c = ENOTDIR"
  by (induction n p rule: resolve.induct) (auto split: option.splits)

lemma map_of_map_entry_same:
  "map_of (AList.map_entry x g es) x = map_option g (map_of es x)"
  by (simp add: map_of_map_entry split: option.splits)

lemma map_of_map_entry_other:
  "y \<noteq> x \<Longrightarrow> map_of (AList.map_entry x g es) y = map_of es y"
  by (simp add: map_of_map_entry)

lemma resolve_parent:
  assumes "resolve n (p @ [x]) = Inr d"
  shows "\<exists>t es. resolve n p = Inr (Dir t es) \<and> map_of es x = Some d"
proof (cases "resolve n p")
  case (Inl e)
  with assms show ?thesis by (simp add: resolve_append)
next
  case (Inr m)
  with assms show ?thesis
    by (cases m) (auto simp: resolve_append split: option.splits)
qed

lemma resolve_below_file:
  "resolve n p = Inr (File b t) \<Longrightarrow> q \<noteq> [] \<Longrightarrow> resolve n (p @ q) = Inl ENOTDIR"
  by (cases q) (simp_all add: resolve_append)

lemma resolve_alter_same:
  "resolve n p = Inr m \<Longrightarrow> resolve (alter p f n) (p @ q) = resolve (f m) q"
proof (induction p arbitrary: n)
  case Nil
  then show ?case by simp
next
  case (Cons x p)
  then show ?case
    by (cases n) (auto simp: map_of_map_entry_same split: option.splits)
qed

lemma resolve_alter_at:
  "resolve n p = Inr m \<Longrightarrow> resolve (alter p f n) p = Inr (f m)"
  using resolve_alter_same [of n p m f "[]"] by simp

text \<open>Once an entry is removed, nothing is found at its path or below it.\<close>

lemma resolve_remove_gone:
  assumes "resolve n (p @ [x]) = Inr d"
  shows "resolve (alter p (set_entries t (AList.delete x)) n) (p @ x # q) = Inl ENOENT"
proof -
  obtain t' es where m: "resolve n p = Inr (Dir t' es)"
    using resolve_parent [OF assms] by blast
  show ?thesis
    using resolve_alter_same [OF m, of "set_entries t (AList.delete x)" "x # q"]
    by (simp add: delete_conv')
qed

text \<open>Removing \<open>dest\<close> leaves every file that is not below \<open>dest\<close> as it was.\<close>

lemma resolve_remove_frame:
  assumes "resolve n dest = Inr d" "dest \<noteq> []" "\<not> prefix dest q" "resolve n q = Inr (File b t)"
  shows "resolve (alter (butlast dest) (set_entries T (AList.delete (last dest))) n) q = Inr (File b t)"
  using assms
proof (induction dest arbitrary: n q)
  case Nil
  then show ?case by simp
next
  case (Cons x p)
  show ?case
  proof (cases n)
    case (File b' t')
    with Cons.prems show ?thesis by simp
  next
    case (Dir t' es)
    show ?thesis
    proof (cases q)
      case Nil
      with Cons.prems Dir show ?thesis by simp
    next
      case (Cons y q')
      show ?thesis
      proof (cases p)
        case Nil
        with Cons.prems Dir \<open>q = y # q'\<close> show ?thesis
          by (auto simp: delete_conv' split: option.splits)
      next
        case (Cons x' p')
        show ?thesis
        proof (cases "y = x")
          case True
          with Cons.prems Dir \<open>q = y # q'\<close> \<open>p = x' # p'\<close> Cons.IH show ?thesis
            by (auto simp: map_of_map_entry_same split: option.splits)
        next
          case False
          with Cons.prems Dir \<open>q = y # q'\<close> \<open>p = x' # p'\<close> show ?thesis
            by (auto simp: map_of_map_entry_other split: option.splits)
        qed
      qed
    qed
  qed
qed

lemma resolve_add_entry:
  assumes "resolve n p = Inr (Dir t es)" "map_of es x = None"
  shows "resolve (alter p (set_entries T (\<lambda>es. es @ [(x, m)])) n) (p @ [x]) = Inr m"
  using resolve_alter_same [OF assms(1), of "set_entries T (\<lambda>es. es @ [(x, m)])" "[x]"] assms(2)
  by (simp add: map_add_def)

section \<open>Properties of \<^verbatim>\<open>copy\<close> and \<^verbatim>\<open>copySync\<close>\<close>

text \<open>
  C1. With policy \<^verbatim>\<open>always\<close>, a source directory and an existing destination
  directory, the children are not evaluated under that policy: the recursive call
  passes no options, so a file that already exists in the destination keeps its
  bytes. Here \<^verbatim>\<open>src/a.txt\<close> holds \<open>new\<close>, \<^verbatim>\<open>dest/a.txt\<close> holds \<open>old\<close>, and
  \<^verbatim>\<open>copy('src', 'dest', { overwrite: 'always' })\<close> succeeds and changes nothing.
\<close>

theorem copy_always_leaves_child:
  "copy (Suc (Suc 0)) [''src''] [''dest''] (Some \<lparr>overwrite = Some Always\<rparr>) nested_fs
     = Some (Done, nested_fs)
   \<and> copySync (Suc (Suc 0)) [''src''] [''dest''] (Some \<lparr>overwrite = Some Always\<rparr>) nested_fs
     = Some (Done, nested_fs)
   \<and> resolve (tree nested_fs) [''src'', ''a.txt''] = Inr (File ''new'' 3)
   \<and> resolve (tree nested_fs) [''dest'', ''a.txt''] = Inr (File ''old'' 1)"
  by (simp add: nested_fs_def fs_calls)

text \<open>
  C2. Under policy \<^verbatim>\<open>newer\<close> a file-vs-file pair below the root pair is not updated
  although its source is strictly newer: the recursive call passes no options, so the
  pair is evaluated with \<^verbatim>\<open>overwrite\<close> false and the call returns as soon as it finds
  the destination. Here \<^verbatim>\<open>src/a.txt\<close> holds \<open>new\<close> with modification time 3,
  \<^verbatim>\<open>dest/a.txt\<close> holds \<open>old\<close> with modification time 1, and
  \<^verbatim>\<open>copy('src', 'dest', { overwrite: 'newer' })\<close> succeeds and changes nothing.
\<close>

theorem copy_newer_leaves_newer_child:
  "resolve (tree nested_fs) [''src'', ''a.txt''] = Inr (File ''new'' 3)
   \<and> resolve (tree nested_fs) [''dest'', ''a.txt''] = Inr (File ''old'' 1)
   \<and> mtimeMs (stats_of (File ''old'' 1)) < mtimeMs (stats_of (File ''new'' 3))
   \<and> copy (Suc (Suc 0)) [''src''] [''dest''] (Some \<lparr>overwrite = Some Newer\<rparr>) nested_fs
     = Some (Done, nested_fs)
   \<and> copySync (Suc (Suc 0)) [''src''] [''dest''] (Some \<lparr>overwrite = Some Newer\<rparr>) nested_fs
     = Some (Done, nested_fs)"
  by (simp add: nested_fs_def fs_calls)

text \<open>
  Where the policy does reach the pair, that is in the call that is given
  \<^verbatim>\<open>newer\<close> for two files, the call succeeds; it copies the source over the
  destination when the source's modification time is strictly greater than the
  destination's, and otherwise (equal or older) it leaves the file system, and so the
  destination's bytes, unchanged.
\<close>

theorem copy_newer_file_over_file:
  assumes src: "resolve (tree s) src = Inr (File b t)"
      and dest: "resolve (tree s) dest = Inr (File b' t')"
      and newer: "options_overwrite options = Some Newer"
  shows "\<exists>s'. copy (Suc fuel) src dest options s = Some (Done, s')
            \<and> copySync (Suc fuel) src dest options s = Some (Done, s')
            \<and> (if t' < t
                then copyFile s src dest = Inr s' \<and> resolve (tree s') dest = Inr (File b (now s))
                else s' = s)"
proof (cases "t' < t")
  case True
  then have "src \<noteq> dest" using src dest by auto
  with True src dest newer show ?thesis
    by (simp add: stat_def overwrite_flag_def and_then_def copyFile_def written_def
        resolve_alter_at)
next
  case False
  with src dest newer show ?thesis
    by (simp add: stat_def overwrite_flag_def)
qed

theorem copy_newer_file_over_file_witness:
  "\<exists>s'. copy (Suc 0) [''f''] [''h''] (Some \<lparr>overwrite = Some Newer\<rparr>) flat_fs = Some (Done, s')
      \<and> copySync (Suc 0) [''f''] [''h''] (Some \<lparr>overwrite = Some Newer\<rparr>) flat_fs = Some (Done, s')
      \<and> copyFile flat_fs [''f''] [''h''] = Inr s'
      \<and> resolve (tree s') [''h''] = Inr (File ''x'' (now flat_fs))"
  using copy_newer_file_over_file [of flat_fs "[''f'']" "''x''" 2 "[''h'']" "''old''" 1
      "Some \<lparr>overwrite = Some Newer\<rparr>" 0]
  by (simp add: flat_fs_def options_overwrite_def)

text \<open>
  C3. A call of \<^verbatim>\<open>copy\<close> or \<^verbatim>\<open>copySync\<close> whose source path does not exist fails at
  once, with the error of \<^verbatim>\<open>stat(src)\<close> (no such entry), whatever the destination and the
  options are, and leaves the file system as it was.
\<close>

theorem copy_source_absent:
  assumes "resolve (tree s) src = Inl c"
  shows "copy (Suc fuel) src dest options s = Some (Threw (SystemError c ''stat'' src), s)
       \<and> copySync (Suc fuel) src dest options s = Some (Threw (SystemError c ''stat'' src), s)
       \<and> (c = ENOENT \<or> c = ENOTDIR)"
  using assms resolve_error [OF assms] by (simp add: stat_def)

theorem copy_source_absent_witness:
  "copy (Suc 0) [''missing''] [''h''] None flat_fs
     = Some (Threw (SystemError ENOENT ''stat'' [''missing'']), flat_fs)
   \<and> copySync (Suc 0) [''missing''] [''h''] None flat_fs
     = Some (Threw (SystemError ENOENT ''stat'' [''missing'']), flat_fs)"
  using copy_source_absent [of flat_fs "[''missing'']" ENOENT 0 "[''h'']" None]
  by (simp add: flat_fs_def)

text \<open>
  C4, amended. When the source is a file that does not lie inside the destination, the
  destination is an existing directory and overwriting is permitted, the call removes
  the directory with all it holds: in the state \<open>s1\<close> in which the copy of the file
  starts, nothing is left at the destination path or below it. The call succeeds, and
  afterwards the destination is a file with the source's bytes and no path below it
  leads anywhere.
\<close>

theorem copy_file_over_directory:
  assumes src: "resolve (tree s) src = Inr (File b t)"
      and dest: "resolve (tree s) dest = Inr (Dir t' es)"
      and permitted: "overwrite_flag options (stats_of (File b t)) (Some (stats_of (Dir t' es)))"
      and apart: "\<not> prefix dest src"
  shows "\<exists>s1 s2. rm_recursive s dest = Inr s1
            \<and> (\<forall>q. resolve (tree s1) (dest @ q) = Inl ENOENT)
            \<and> copyFile s1 src dest = Inr s2
            \<and> copy (Suc fuel) src dest options s = Some (Done, s2)
            \<and> copySync (Suc fuel) src dest options s = Some (Done, s2)
            \<and> resolve (tree s2) dest = Inr (File b (now s1))
            \<and> (\<forall>q. q \<noteq> [] \<longrightarrow> resolve (tree s2) (dest @ q) = Inl ENOTDIR)"
proof -
  define s1 where "s1 = remove_entry s dest"
  define s2 where "s2 = add_entry s1 dest (File b (now s1))"
  from apart have ne: "dest \<noteq> []" by auto
  then have split: "dest = butlast dest @ [last dest]" by simp
  from dest split obtain tp ep where
    parent: "resolve (tree s) (butlast dest) = Inr (Dir tp ep)"
    using resolve_parent [of "tree s" "butlast dest" "last dest"] by metis
  have rm: "rm_recursive s dest = Inr s1"
    using dest ne by (simp add: rm_recursive_def s1_def)
  have tree1: "tree s1 = alter (butlast dest) (set_entries (now s) (AList.delete (last dest))) (tree s)"
    by (simp add: s1_def remove_entry_def written_def)
  have gone: "resolve (tree s1) (dest @ q) = Inl ENOENT" for q
    using resolve_remove_gone [of "tree s" "butlast dest" "last dest" _ "now s" q] dest split
    unfolding tree1 by (metis append.assoc append_Cons append_Nil)
  have src1: "resolve (tree s1) src = Inr (File b t)"
    unfolding tree1 using resolve_remove_frame [OF dest ne apart src] .
  have parent1: "resolve (tree s1) (butlast dest)
      = Inr (Dir (now s) (AList.delete (last dest) ep))"
    unfolding tree1 using resolve_alter_at [OF parent] by simp
  have neq: "src \<noteq> dest" using apart by auto
  have cf: "copyFile s1 src dest = Inr s2"
    using src1 neq gone [of "[]"] parent1 by (simp add: copyFile_def s2_def)
  have tree2: "tree s2 = alter (butlast dest)
      (set_entries (now s1) (\<lambda>es. es @ [(last dest, File b (now s1))])) (tree s1)"
    by (simp add: s2_def add_entry_def written_def)
  have at2: "resolve (tree s2) dest = Inr (File b (now s1))"
    using resolve_add_entry [OF parent1, of "last dest" "now s1" "File b (now s1)"] split
    unfolding tree2 by (simp add: delete_conv')
  have below2: "q \<noteq> [] \<longrightarrow> resolve (tree s2) (dest @ q) = Inl ENOTDIR" for q
    using resolve_below_file [OF at2] by simp
  have c: "copy (Suc fuel) src dest options s = Some (Done, s2)"
    using src dest permitted rm cf by (simp add: stat_def and_then_def)
  have cs: "copySync (Suc fuel) src dest options s = Some (Done, s2)"
    using src dest permitted rm cf by (simp add: stat_def and_then_def)
  show ?thesis
    using rm gone cf c cs at2 below2 by blast
qed

theorem copy_file_over_directory_witness:
  "\<exists>s1 s2. rm_recursive flat_fs [''d''] = Inr s1
      \<and> (\<forall>q. resolve (tree s1) ([''d''] @ q) = Inl ENOENT)
      \<and> copyFile s1 [''f''] [''d''] = Inr s2
      \<and> copy (Suc 0) [''f''] [''d''] (Some \<lparr>overwrite = Some Always\<rparr>) flat_fs = Some (Done, s2)
      \<and> copySync (Suc 0) [''f''] [''d''] (Some \<lparr>overwrite = Some Always\<rparr>) flat_fs = Some (Done, s2)
      \<and> resolve (tree s2) [''d''] = Inr (File ''x'' (now s1))
      \<and> (\<forall>q. q \<noteq> [] \<longrightarrow> resolve (tree s2) ([''d''] @ q) = Inl ENOTDIR)"
  by (rule copy_file_over_directory [where t = 2 and t' = 1 and es = "[(''g'', File ''y'' 1)]"])
    (simp_all add: flat_fs_def overwrite_flag_def options_overwrite_def)

text \<open>
  C4 as stated fails when the source file lies inside the destination directory:
  \<^verbatim>\<open>copy('d/f', 'd', { overwrite: 'always' })\<close> removes \<^verbatim>\<open>d\<close>, and the source with
  it, so that \<^verbatim>\<open>copyFile\<close> finds no source; the call is rejected and nothing is left at
  the destination path.
\<close>

theorem copy_file_from_inside_directory:
  "resolve (tree inside_fs) [''d'', ''f''] = Inr (File ''x'' 2)
   \<and> resolve (tree inside_fs) [''d''] = Inr (Dir 1 [(''f'', File ''x'' 2)])
   \<and> copy (Suc 0) [''d'', ''f''] [''d''] (Some \<lparr>overwrite = Some Always\<rparr>) inside_fs
     = Some (Threw (SystemError ENOENT ''copyfile'' [''d'', ''f'']),
         \<lparr>tree = Dir 10 [], clock = (\<lambda>k. 10 + of_nat k), ticks = 1\<rparr>)
   \<and> resolve (Dir 10 []) [''d''] = Inl ENOENT"
  by (simp add: inside_fs_def fs_calls)

text \<open>
  C5. When the source is a directory, the destination is an existing file and
  overwriting is not permitted (no options, no \<^verbatim>\<open>overwrite\<close>, \<^verbatim>\<open>'never'\<close> or
  \<^verbatim>\<open>false\<close>), the call succeeds and the whole file system, the destination file
  included, is as it was.
\<close>

theorem copy_directory_onto_file_denied:
  assumes "resolve (tree s) src = Inr (Dir t es)"
      and "resolve (tree s) dest = Inr (File b t')"
      and "options_overwrite options = None \<or> options_overwrite options = Some Never
           \<or> options_overwrite options = Some BoolFalse"
  shows "copy (Suc fuel) src dest options s = Some (Done, s)
       \<and> copySync (Suc fuel) src dest options s = Some (Done, s)"
  using assms by (auto simp: stat_def overwrite_flag_def)

theorem copy_directory_onto_file_denied_witness:
  "copy (Suc 0) [''d''] [''h''] None flat_fs = Some (Done, flat_fs)
   \<and> copySync (Suc 0) [''d''] [''h''] None flat_fs = Some (Done, flat_fs)"
  by (rule copy_directory_onto_file_denied [where t = 1 and es = "[(''g'', File ''y'' 1)]"
        and b = "''old''" and t' = 1])
    (simp_all add: flat_fs_def options_overwrite_def)

subsection \<open>The two functions agree\<close>

lemma mkdirp_notdir: "resolve n p = Inl ENOTDIR \<Longrightarrow> mkdirp t p n = Inl ENOTDIR"
  by (induction t p n rule: mkdirp.induct) (auto split: option.splits)

lemma resolve_notdir_parent:
  assumes "resolve n p = Inl ENOTDIR"
  shows "\<forall>t es. resolve n (butlast p) \<noteq> Inr (Dir t es)"
proof (cases p rule: rev_cases)
  case Nil
  with assms show ?thesis by simp
next
  case (snoc q x)
  with assms show ?thesis
    by (auto simp: resolve_append split: option.splits)
qed

lemma copyFile_notdir:
  assumes "resolve (tree s) dest = Inl ENOTDIR"
  shows "\<exists>e. copyFile s src dest = Inl e"
  using assms resolve_notdir_parent [OF assms]
  by (auto simp: copyFile_def split: sum.splits node.splits)

lemma mkdir_recursive_notdir:
  "resolve (tree s) dest = Inl ENOTDIR \<Longrightarrow> \<exists>e. mkdir_recursive s dest = Inl e"
  by (simp add: mkdir_recursive_def mkdirp_notdir)

lemma observed_for_each:
  assumes "\<And>x s. observed (f x s) = observed (g x s)"
  shows "observed (for_each f files s) = observed (for_each g files s)"
proof (induction files arbitrary: s)
  case Nil
  show ?case by simp
next
  case (Cons x files)
  show ?case
  proof (cases "f x s")
    case None
    with assms [of x s] show ?thesis by (simp add: observed_def)
  next
    case (Some r)
    obtain c s' where r: "r = (c, s')" by (cases r)
    have "\<exists>c'. g x s = Some (c', s') \<and> (c = Done) = (c' = Done)"
      using assms [of x s] Some r by (cases "g x s") (auto simp: observed_def)
    then obtain c' where
      g: "g x s = Some (c', s')" and same: "(c = Done) = (c' = Done)"
      by blast
    show ?thesis
      using Some r g same Cons.IH [of s']
      by (cases c; cases c') (simp_all add: observed_def)
  qed
qed

text \<open>
  Where \<^verbatim>\<open>statSync(dest)\<close> throws because a file stands in the way of the destination
  path, \<^verbatim>\<open>copy\<close> goes on with \<^verbatim>\<open>destStat = null\<close> and fails in its next call.
\<close>

lemma copy_dest_notdir:
  assumes "stat s src = Inr srcStat" "resolve (tree s) dest = Inl ENOTDIR"
  shows "\<exists>e. copy (Suc fuel) src dest options s = Some (Threw e, s)"
proof -
  obtain e1 where e1: "copyFile s src dest = Inl e1"
    using copyFile_notdir [OF assms(2)] by blast
  obtain e2 where e2: "mkdir_recursive s dest = Inl e2"
    using mkdir_recursive_notdir [OF assms(2)] by blast
  have "isFile srcStat \<or> isDirectory srcStat"
  proof (cases "resolve (tree s) src")
    case (Inl c)
    with assms(1) show ?thesis by (simp add: stat_def)
  next
    case (Inr n)
    with assms(1) show ?thesis by (cases n) (auto simp: stat_def)
  qed
  then show ?thesis
    using assms e1 e2 by (auto simp: stat_def and_then_def Let_def)
qed

text \<open>
  C7. For every source, destination, options and file system, and every bound on the
  depth of the calls, \<^verbatim>\<open>copySync\<close> and \<^verbatim>\<open>copy\<close> both need a deeper bound, or both
  succeed, or both fail, and they leave the same file system.
\<close>

theorem copySync_same_as_copy:
  "observed (copySync fuel src dest options s) = observed (copy fuel src dest options s)"
proof (induction fuel arbitrary: src dest options s)
  case 0
  show ?case by simp
next
  case (Suc fuel)
  have children:
    "observed (for_each (\<lambda>file. copySync fuel (join src file) (join dest file) None) files s')
      = observed (for_each (\<lambda>file. copy fuel (join src file) (join dest file) None) files s')"
    for files s'
    by (rule observed_for_each) (rule Suc.IH)
  show ?case
  proof (cases "stat s src")
    case (Inl e)
    then show ?thesis by simp
  next
    case src: (Inr srcStat)
    show ?thesis
    proof (cases "resolve (tree s) dest")
      case (Inr n)
      with src children show ?thesis
        by (simp add: stat_def and_then_def Let_def split: sum.splits)
    next
      case (Inl c)
      show ?thesis
      proof (cases c)
        case ENOENT
        with Inl src children show ?thesis
          by (simp add: stat_def and_then_def Let_def split: sum.splits)
      next
        case ENOTDIR
        with Inl copy_dest_notdir [OF src, of dest fuel options] src show ?thesis
          by (auto simp: stat_def observed_def)
      qed (use Inl resolve_error [of "tree s" dest c] in auto)
    qed
  qed
qed

section \<open>Properties of \<^verbatim>\<open>collectFiles\<close>\<close>

lemma length_listing:
  "length (listing p n) = count_files n"
  "length (listing_entries p es) = count_files_in es"
  by (induction p n and p es rule: listing_listing_entries.induct) simp_all

lemma wf_entries_member: "well_formed_entries es \<Longrightarrow> (k, n) \<in> set es \<Longrightarrow> well_formed n"
  by (induction es) auto

lemma listing_resolves:
  "well_formed n \<Longrightarrow> q \<in> set (listing p n) \<Longrightarrow> \<exists>r b t. q = p @ r \<and> resolve n r = Inr (File b t)"
  "well_formed_entries es \<Longrightarrow> distinct (map fst es) \<Longrightarrow> q \<in> set (listing_entries p es)
     \<Longrightarrow> \<exists>r b t. q = p @ r \<and> resolve (Dir T es) r = Inr (File b t)"
proof (induction p n and p es arbitrary: q and q T rule: listing_listing_entries.induct)
  case (1 p b t)
  then show ?case by simp
next
  case (2 p t es)
  then show ?case by simp
next
  case (3 p)
  then show ?case by simp
next
  case (4 p k n es)
  from "4.prems" have wfn: "well_formed n" and wfes: "well_formed_entries es" and dist: "distinct (map fst es)"
    and fresh: "k \<notin> fst ` set es"
    by auto
  from "4.prems"(3) consider "q \<in> set (listing (p @ [k]) n)" | "q \<in> set (listing_entries p es)"
    by auto
  then show ?case
  proof cases
    case 1
    from "4.IH"(1) [OF wfn 1] obtain r b t where "q = (p @ [k]) @ r" "resolve n r = Inr (File b t)"
      by blast
    then have "q = p @ (k # r) \<and> resolve (Dir T ((k, n) # es)) (k # r) = Inr (File b t)"
      by simp
    then show ?thesis by blast
  next
    case 2
    from "4.IH"(2) [OF wfes dist 2, of T] obtain r b t where r: "q = p @ r"
      "resolve (Dir T es) r = Inr (File b t)"
      by blast
    then obtain x r' where xr: "r = x # r'" by (cases r) auto
    with r(2) obtain c where "map_of es x = Some c"
      by (auto split: option.splits)
    then have "(x, c) \<in> set es" by (rule map_of_SomeD)
    then have "x \<in> fst ` set es" by force
    with fresh have "x \<noteq> k" by auto
    with r xr have "q = p @ r \<and> resolve (Dir T ((k, n) # es)) r = Inr (File b t)"
      by simp
    then show ?thesis by blast
  qed
qed

lemma for_entries_listing:
  assumes sub: "\<And>k t' es' acc'. (k, Dir t' es') \<in> set es2 \<Longrightarrow>
            collect s flt (dir @ [k]) acc' = Inr (acc' @ filter (accepts flt) (listing_entries (dir @ [k]) es'))"
  shows "for_entries (\<lambda>entry entries.
              let entryPath = join dir (name entry)
              in if entryIsDirectory entry then collect s flt entryPath entries
                 else if (case flt of None \<Rightarrow> True | Some f \<Rightarrow> f entryPath)
                 then Inr (entries @ [entryPath])
                 else Inr entries)
            (map dirent_of es2) acc
         = Inr (acc @ filter (accepts flt) (listing_entries dir es2))"
  using sub
proof (induction es2 arbitrary: acc)
  case Nil
  show ?case by simp
next
  case (Cons kn es2)
  obtain k n where kn: "kn = (k, n)" by (cases kn)
  have rest: "\<And>acc. for_entries (\<lambda>entry entries.
              let entryPath = join dir (name entry)
              in if entryIsDirectory entry then collect s flt entryPath entries
                 else if (case flt of None \<Rightarrow> True | Some f \<Rightarrow> f entryPath)
                 then Inr (entries @ [entryPath])
                 else Inr entries)
            (map dirent_of es2) acc
         = Inr (acc @ filter (accepts flt) (listing_entries dir es2))"
  proof (rule Cons.IH)
    fix k t' es' acc'
    assume "(k, Dir t' es') \<in> set es2"
    then have "(k, Dir t' es') \<in> set (kn # es2)" by simp
    then show "collect s flt (dir @ [k]) acc'
        = Inr (acc' @ filter (accepts flt) (listing_entries (dir @ [k]) es'))"
      by (rule Cons.prems)
  qed
  show ?case
  proof (cases n)
    case (File b t)
    with kn rest show ?thesis
      by (simp add: join_def accepts_def [symmetric])
  next
    case (Dir t' es')
    with kn rest Cons.prems [of k t' es'] show ?thesis
      by (simp add: join_def)
  qed
qed

lemma collect_listing:
  "resolve (tree s) dir = Inr (Dir t es) \<Longrightarrow> well_formed (Dir t es) \<Longrightarrow>
     collect s flt dir acc = Inr (acc @ filter (accepts flt) (listing_entries dir es))"
proof (induction s flt dir acc arbitrary: t es rule: collect.induct)
  case (1 s flt dir entries)
  have rd: "readdir_withFileTypes s dir = Inr (map dirent_of es)"
    using "1.prems"(1) by (simp add: readdir_withFileTypes_def)
  have sub: "collect s flt (dir @ [k]) acc'
      = Inr (acc' @ filter (accepts flt) (listing_entries (dir @ [k]) es'))"
    if mem: "(k, Dir t' es') \<in> set es" for k t' es' acc'
  proof -
    from "1.prems"(2) have dist: "distinct (map fst es)" and wfes: "well_formed_entries es" by auto
    from dist mem have "map_of es k = Some (Dir t' es')" by simp
    with "1.prems"(1) have r: "resolve (tree s) (dir @ [k]) = Inr (Dir t' es')"
      by (simp add: resolve_append)
    have w: "well_formed (Dir t' es')" using wf_entries_member [OF wfes mem] .
    have d: "dirent_of (k, Dir t' es') \<in> set (map dirent_of es)" using mem by force
    have "collect s flt (join dir (name (dirent_of (k, Dir t' es')))) acc'
        = Inr (acc' @ filter (accepts flt)
            (listing_entries (join dir (name (dirent_of (k, Dir t' es')))) es'))"
    proof (rule "1.IH" [OF rd d refl])
      show "entryIsDirectory (dirent_of (k, Dir t' es'))" by simp
      show "resolve (tree s) (join dir (name (dirent_of (k, Dir t' es')))) = Inr (Dir t' es')"
        using r by (simp add: join_def)
      show "well_formed (Dir t' es')" by (rule w)
    qed
    then show ?thesis
      by (simp add: join_def)
  qed
  show ?case
    by (subst collect.simps) (simp add: rd for_entries_listing [of es, OF sub])
qed


lemma accepts_Some: "accepts (Some f) = f"
  by (simp add: fun_eq_iff accepts_def)

lemma accepts_None: "accepts None = (\<lambda>p. True)"
  by (simp add: fun_eq_iff accepts_def)

text \<open>
  C6. For a directory whose tree holds N files (and any number of directories),
  \<^verbatim>\<open>collectFiles\<close> without a filter returns N paths, each of them the path of a file
  and none of a directory. With a filter it returns those of the same paths the filter
  accepts: the filter is applied to the full joined path of each file, and a directory
  is traversed whatever the filter says of it.
\<close>

theorem collectFiles_lists_files:
  assumes dir: "resolve (tree s) dir = Inr (Dir t es)"
      and wf: "well_formed (Dir t es)"
  shows "\<exists>paths. collectFiles s dir None = Inr paths
           \<and> length paths = count_files (Dir t es)
           \<and> (\<forall>p \<in> set paths. \<exists>b t'. resolve (tree s) p = Inr (File b t'))
           \<and> (\<forall>f. collectFiles s dir (Some f) = Inr (filter f paths))"
proof -
  let ?paths = "listing_entries dir es"
  have none: "collectFiles s dir None = Inr ?paths"
    using collect_listing [OF dir wf, of None "[]"]
    by (simp add: collectFiles_def accepts_Some accepts_None)
  have some: "collectFiles s dir (Some f) = Inr (filter f ?paths)" for f
    using collect_listing [OF dir wf, of "Some f" "[]"]
    by (simp add: collectFiles_def accepts_Some accepts_None)
  have len: "length ?paths = count_files (Dir t es)"
    by (simp add: length_listing)
  have files: "\<exists>b t'. resolve (tree s) p = Inr (File b t')" if "p \<in> set ?paths" for p
  proof -
    from wf have "well_formed_entries es" "distinct (map fst es)" by auto
    from listing_resolves(2) [OF this that, of t] obtain r b t' where
      "p = dir @ r" "resolve (Dir t es) r = Inr (File b t')"
      by blast
    then show ?thesis using dir by (auto simp: resolve_append)
  qed
  show ?thesis
    using none some len files by blast
qed

theorem collectFiles_lists_files_witness:
  "\<exists>paths. collectFiles flat_fs [] None = Inr paths
     \<and> length paths = count_files (Dir 0 [(''f'', File ''x'' 2), (''d'', Dir 1 [(''g'', File ''y'' 1)]),
                     (''h'', File ''old'' 1)])
     \<and> (\<forall>p \<in> set paths. \<exists>b t'. resolve (tree flat_fs) p = Inr (File b t'))
     \<and> (\<forall>f. collectFiles flat_fs [] (Some f) = Inr (filter f paths))"
  by (rule collectFiles_lists_files) (simp_all add: flat_fs_def)

section \<open>Properties of the stream helpers\<close>

lemmas stream_calls = arrayToStream_def new_Readable_def run_read_def push_def read_def
  streamToArray_def new_PassThrough_def stream_write_def end_stream_def mergeStreams_def pipe_def
  index_mergeStreams_def

lemma kept_fun: "kept om = (\<lambda>c. om \<or> bytes_of c \<noteq> [])"
  by (simp add: fun_eq_iff kept_def)

lemma stored_fun: "stored om = (\<lambda>c. if om then c else Buffer (bytes_of c))"
  by (simp add: fun_eq_iff stored_def)

lemma push_objectMode: "objectMode (push c st) = objectMode st"
  by (simp add: push_def)

lemma push_read_pushes: "read_pushes (push c st) = read_pushes st"
  by (simp add: push_def)

lemma push_eof: "eof (push c st) = (eof st \<or> c = Null)"
  by (simp add: push_def)

lemma push_buffer:
  "buffer (push c st) = buffer st @
     (if c \<noteq> Null \<and> kept (objectMode st) c \<and> \<not> eof st \<and> errored st = None
      then [stored (objectMode st) c] else [])"
  by (simp add: push_def kept_def stored_def)

lemma push_errored:
  "errored (push c st) =
     (case errored st of
        Some err \<Rightarrow> Some err
      | None \<Rightarrow> if c \<noteq> Null \<and> kept (objectMode st) c \<and> eof st
                then Some ERR_STREAM_PUSH_AFTER_EOF else None)"
  by (simp add: push_def kept_def split: option.splits)

lemmas push_fields = push_objectMode push_read_pushes push_eof push_buffer push_errored

lemma pushes_objectMode:
  "objectMode (foldl (\<lambda>this element. push element this) st xs) = objectMode st"
  by (induction xs arbitrary: st) (simp_all add: push_objectMode)

lemma pushes_buffer:
  "buffer (foldl (\<lambda>this element. push element this) st xs)
     = buffer st @ (if eof st \<or> errored st \<noteq> None then []
                    else map (stored (objectMode st))
                           (filter (kept (objectMode st)) (takeWhile (\<lambda>c. c \<noteq> Null) xs)))"
proof (induction xs arbitrary: st)
  case Nil
  show ?case by simp
next
  case (Cons x xs)
  show ?case
    unfolding foldl_Cons Cons.IH
    by (cases "errored st") (simp_all add: push_fields)
qed

lemma pushes_errored:
  "errored (foldl (\<lambda>this element. push element this) st xs)
     = (case errored st of
          Some err \<Rightarrow> Some err
        | None \<Rightarrow>
            if \<exists>c \<in> set (if eof st then xs else dropWhile (\<lambda>c. c \<noteq> Null) xs).
                 c \<noteq> Null \<and> kept (objectMode st) c
            then Some ERR_STREAM_PUSH_AFTER_EOF else None)"
proof (induction xs arbitrary: st)
  case Nil
  show ?case by (simp split: option.splits)
next
  case (Cons x xs)
  show ?case
    unfolding foldl_Cons Cons.IH
    by (cases "errored st"; cases "x = Null"; cases "eof st") (simp_all add: push_fields)
qed

lemma for_await_errored: "errored st = Some err \<Longrightarrow> for_await st body acc = Rejected err"
  by (subst for_await.simps) simp

lemma for_await_drain:
  assumes "errored st = None" "eof st" "objectMode st"
  shows "for_await st body acc = Resolved (foldl body acc (buffer st))"
  using assms
proof (induction xs \<equiv> "buffer st" arbitrary: st acc)
  case Nil
  then show ?case
    by (subst for_await.simps) (simp add: read_def)
next
  case (Cons chunk rest)
  have r: "read st = (Some chunk, st\<lparr>buffer := rest\<rparr>)"
    using Cons.prems Cons.hyps(2) [symmetric] by (simp add: read_def)
  have "for_await (st\<lparr>buffer := rest\<rparr>) body (body acc chunk)
      = Resolved (foldl body (body acc chunk) (buffer (st\<lparr>buffer := rest\<rparr>)))"
    by (rule Cons.hyps(1)) (simp_all add: Cons.prems)
  then show ?case
    using Cons.prems Cons.hyps(2) [symmetric] r
    by (subst for_await.simps) simp
qed

lemma for_await_drain_bytes:
  assumes "errored st = None" "eof st" "\<not> objectMode st"
  shows "for_await st body acc
     = Resolved (if buffer st = [] then acc
                 else body acc (Buffer (concat (map bytes_of (buffer st)))))"
proof (cases "buffer st")
  case Nil
  with assms show ?thesis
    by (subst for_await.simps) (simp add: read_def)
next
  case (Cons chunk rest)
  have r: "read st = (Some (Buffer (concat (map bytes_of (buffer st)))), st\<lparr>buffer := []\<rparr>)"
    using assms Cons by (simp add: read_def)
  have "for_await (st\<lparr>buffer := []\<rparr>) body acc' = Resolved acc'" for acc'
    using assms by (subst for_await.simps) (simp add: read_def)
  then show ?thesis
    using assms Cons r by (subst for_await.simps) simp
qed

text \<open>The stream \<^verbatim>\<open>arrayToStream\<close> returns, once its \<^verbatim>\<open>read()\<close> has run.\<close>

lemma run_read_arrayToStream:
  "run_read (arrayToStream input om)
     = push Null (foldl (\<lambda>this element. push element this) (arrayToStream input om) input)"
  by (simp add: run_read_def arrayToStream_def new_Readable_def)

lemma fresh_arrayToStream:
  "buffer (arrayToStream input om) = []" "\<not> eof (arrayToStream input om)"
  "errored (arrayToStream input om) = None"
  by (simp_all add: arrayToStream_def new_Readable_def)

lemma objectMode_run_read:
  "objectMode (run_read (arrayToStream input om)) = objectMode (arrayToStream input om)"
  by (simp add: run_read_arrayToStream push_objectMode pushes_objectMode)

lemma eof_run_read: "eof (run_read (arrayToStream input om))"
  by (simp add: run_read_arrayToStream push_eof)

lemma buffer_run_read:
  "buffer (run_read (arrayToStream input om))
     = map (stored (objectMode (arrayToStream input om)))
         (filter (kept (objectMode (arrayToStream input om))) (takeWhile (\<lambda>c. c \<noteq> Null) input))"
  by (simp add: run_read_arrayToStream push_buffer pushes_buffer fresh_arrayToStream)

lemma errored_run_read:
  "errored (run_read (arrayToStream input om))
     = (if \<exists>c \<in> set (dropWhile (\<lambda>c. c \<noteq> Null) input).
             c \<noteq> Null \<and> kept (objectMode (arrayToStream input om)) c
        then Some ERR_STREAM_PUSH_AFTER_EOF else None)"
  by (simp add: run_read_arrayToStream push_errored pushes_errored pushes_objectMode
      fresh_arrayToStream)

lemma for_await_arrayToStream:
  "for_await (arrayToStream input om) body acc
     = (let st = run_read (arrayToStream input om)
        in case errored st of
             Some err \<Rightarrow> Rejected err
           | None \<Rightarrow>
               Resolved (if objectMode st then foldl body acc (buffer st)
                         else if buffer st = [] then acc
                         else body acc (Buffer (concat (map bytes_of (buffer st))))))"
proof -
  let ?fresh = "arrayToStream input om"
  let ?st = "run_read ?fresh"
  have start: "for_await ?fresh body acc
      = (case read ?fresh of
           (Some chunk, st') \<Rightarrow> for_await st' body (body acc chunk)
         | (None, st') \<Rightarrow>
             (case errored st' of
                Some err \<Rightarrow> Rejected err
              | None \<Rightarrow> if eof st' then Resolved acc else Pending))"
    by (subst for_await.simps) (simp add: fresh_arrayToStream)
  have rd: "read ?fresh
      = (case buffer ?st of
           [] \<Rightarrow> (None, ?st)
         | chunk # rest \<Rightarrow>
             if objectMode ?st then (Some chunk, ?st\<lparr>buffer := rest\<rparr>)
             else (Some (Buffer (concat (map bytes_of (buffer ?st)))), ?st\<lparr>buffer := []\<rparr>))"
    by (simp add: read_def fresh_arrayToStream Let_def)
  show ?thesis
  proof (cases "buffer ?st")
    case Nil
    then show ?thesis
      unfolding start rd by (simp add: eof_run_read Let_def split: option.splits)
  next
    case (Cons chunk rest)
    show ?thesis
    proof (cases "errored ?st")
      case (Some err)
      then show ?thesis
        unfolding start rd using Cons
        by (simp add: Let_def for_await_errored)
    next
      case None
      show ?thesis
      proof (cases "objectMode ?st")
        case True
        have "for_await (?st\<lparr>buffer := rest\<rparr>) body (body acc chunk)
            = Resolved (foldl body (body acc chunk) (buffer (?st\<lparr>buffer := rest\<rparr>)))"
          by (rule for_await_drain) (simp_all add: None True eof_run_read)
        then show ?thesis
          unfolding start rd using Cons None True by (simp add: Let_def)
      next
        case False
        have "for_await (?st\<lparr>buffer := []\<rparr>) body acc'
            = Resolved (if buffer (?st\<lparr>buffer := []\<rparr>) = [] then acc'
                        else body acc' (Buffer (concat (map bytes_of (buffer (?st\<lparr>buffer := []\<rparr>))))))"
          for acc'
          by (rule for_await_drain_bytes) (simp_all add: None False eof_run_read)
        then show ?thesis
          unfolding start rd using Cons None False by (simp add: Let_def)
      qed
    qed
  qed
qed

lemma foldl_snoc: "foldl (\<lambda>output chunk. output @ [chunk]) acc xs = acc @ xs"
  by (induction xs arbitrary: acc) simp_all

text \<open>
  C8. The two \<^verbatim>\<open>mergeStreams\<close> are not equivalent. For one input stream holding one
  chunk, the function of \<^verbatim>\<open>src/unnamed/part_000\<close> resolves with a stream that holds the
  chunk and has ended, and \<^verbatim>\<open>streamToArray\<close> of it resolves; the function of
  \<^verbatim>\<open>src/index.ts\<close> gives a stream that holds the chunk and never ends, and
  \<^verbatim>\<open>streamToArray\<close> of it stays pending.
\<close>

theorem mergeStreams_implementations_differ:
  "mergeStreams [arrayToStream [Buffer ''a''] None]
     = Resolved \<lparr>objectMode = True, buffer = [Buffer ''a''], eof = True, errored = None,
         read_pushes = None\<rparr>
   \<and> index_mergeStreams [arrayToStream [Buffer ''a''] None]
     = Resolved \<lparr>objectMode = True, buffer = [Buffer ''a''], eof = False, errored = None,
         read_pushes = None\<rparr>
   \<and> streamToArray \<lparr>objectMode = True, buffer = [Buffer ''a''], eof = True, errored = None,
         read_pushes = None\<rparr> = Resolved [Buffer ''a'']
   \<and> streamToArray \<lparr>objectMode = True, buffer = [Buffer ''a''], eof = False, errored = None,
         read_pushes = None\<rparr> = Pending"
  by (simp add: stream_calls for_await.simps)

text \<open>
  C9, amended. Once its \<^verbatim>\<open>read()\<close> has run, the stream of \<^verbatim>\<open>arrayToStream\<close> has
  end-of-stream recorded and holds exactly the longest null-free prefix of the array
  (in byte mode as \<^verbatim>\<open>Buffer\<close>s, without the empty chunks); nothing after the first
  \<^verbatim>\<open>null\<close> is ever stored or emitted. The stream ends normally only when no chunk
  that \<open>push\<close> would store follows the first \<^verbatim>\<open>null\<close>; otherwise it is destroyed with
  \<^verbatim>\<open>ERR_STREAM_PUSH_AFTER_EOF\<close>, and \<^verbatim>\<open>streamToArray\<close> is rejected with that error
  instead of resolving.
\<close>

theorem arrayToStream_stops_at_null:
  "(let st = run_read (arrayToStream input om)
    in eof st
     \<and> buffer st = (if objectMode st then takeWhile (\<lambda>c. c \<noteq> Null) input
                    else map (\<lambda>c. Buffer (bytes_of c))
                           (filter (\<lambda>c. bytes_of c \<noteq> []) (takeWhile (\<lambda>c. c \<noteq> Null) input)))
     \<and> errored st = (if \<exists>c \<in> set (dropWhile (\<lambda>c. c \<noteq> Null) input).
                           c \<noteq> Null \<and> (objectMode st \<or> bytes_of c \<noteq> [])
                      then Some ERR_STREAM_PUSH_AFTER_EOF else None)
     \<and> streamToArray (arrayToStream input om)
         = (case errored st of
              Some err \<Rightarrow> Rejected err
            | None \<Rightarrow> Resolved (if objectMode st then buffer st
                                 else if buffer st = [] then []
                                 else [Buffer (concat (map bytes_of (buffer st)))])))"
  unfolding Let_def
proof (intro conjI)
  show "eof (run_read (arrayToStream input om))" by (rule eof_run_read)
next
  show "buffer (run_read (arrayToStream input om))
     = (if objectMode (run_read (arrayToStream input om)) then takeWhile (\<lambda>c. c \<noteq> Null) input
        else map (\<lambda>c. Buffer (bytes_of c))
               (filter (\<lambda>c. bytes_of c \<noteq> []) (takeWhile (\<lambda>c. c \<noteq> Null) input)))"
    by (simp add: buffer_run_read objectMode_run_read kept_fun stored_fun)
next
  show "errored (run_read (arrayToStream input om))
     = (if \<exists>c \<in> set (dropWhile (\<lambda>c. c \<noteq> Null) input).
             c \<noteq> Null \<and> (objectMode (run_read (arrayToStream input om)) \<or> bytes_of c \<noteq> [])
        then Some ERR_STREAM_PUSH_AFTER_EOF else None)"
    by (simp add: errored_run_read objectMode_run_read kept_def)
next
  show "streamToArray (arrayToStream input om)
     = (case errored (run_read (arrayToStream input om)) of
          Some err \<Rightarrow> Rejected err
        | None \<Rightarrow>
            Resolved (if objectMode (run_read (arrayToStream input om))
                      then buffer (run_read (arrayToStream input om))
                      else if buffer (run_read (arrayToStream input om)) = [] then []
                      else [Buffer (concat (map bytes_of (buffer (run_read (arrayToStream input om)))))]))"
    by (simp add: streamToArray_def for_await_arrayToStream Let_def foldl_snoc
        split: option.splits)
qed

theorem arrayToStream_stops_at_null_witness:
  "eof (run_read (arrayToStream [Buffer ''a'', Buffer ''b'', Null] None))
   \<and> buffer (run_read (arrayToStream [Buffer ''a'', Buffer ''b'', Null] None))
       = [Buffer ''a'', Buffer ''b'']
   \<and> errored (run_read (arrayToStream [Buffer ''a'', Buffer ''b'', Null] None)) = None
   \<and> streamToArray (arrayToStream [Buffer ''a'', Buffer ''b'', Null] None)
       = Resolved [Buffer ''a'', Buffer ''b'']"
proof -
  have "objectMode (run_read (arrayToStream [Buffer ''a'', Buffer ''b'', Null] None))"
    by (subst objectMode_run_read) (simp add: arrayToStream_def new_Readable_def)
  then show ?thesis
    using arrayToStream_stops_at_null [of "[Buffer ''a'', Buffer ''b'', Null]" None]
    by (simp add: Let_def)
qed

text \<open>
  C9 as stated fails where a chunk follows the first \<^verbatim>\<open>null\<close>: the stream of
  \<^verbatim>\<open>[a, null, b]\<close> does not end after \<^verbatim>\<open>a\<close>, it is destroyed, and its consumer is
  rejected.
\<close>

theorem arrayToStream_null_then_chunk:
  "buffer (run_read (arrayToStream [Buffer ''a'', Null, Buffer ''b''] None)) = [Buffer ''a'']
   \<and> errored (run_read (arrayToStream [Buffer ''a'', Null, Buffer ''b''] None))
       = Some ERR_STREAM_PUSH_AFTER_EOF
   \<and> streamToArray (arrayToStream [Buffer ''a'', Null, Buffer ''b''] None)
       = Rejected ERR_STREAM_PUSH_AFTER_EOF"
  by (simp add: stream_calls for_await.simps)




end
